theory Spec2Isabelle
  imports Main
begin

section \<open>C strings\<close>

text \<open>
  A \<^verbatim>\<open>char const *\<close> is modelled by the list of the bytes it points to; the string ends
  at the first NUL byte, or at the end of the list, where the terminator stands.
  \<^verbatim>\<open>strlen\<close> counts the bytes before the terminator.
\<close>

abbreviation NUL :: char where
  "NUL \<equiv> CHR 0x00"

definition strlen :: "string \<Rightarrow> nat" where
  "strlen str = length (takeWhile (\<lambda>c. c \<noteq> NUL) str)"

text \<open>
  The value of a \<^verbatim>\<open>char\<close> in a comparison, after the integer promotion. The Makefile
  builds with gcc, where \<^verbatim>\<open>char\<close> is signed on the usual targets: bytes from 128 on
  are negative.
\<close>

definition char_val :: "char \<Rightarrow> int" where
  "char_val c = (if (of_char c :: int) < 128 then of_char c else of_char c - 256)"

section \<open>Patterns and their match tables (pattern.h, pattern.c)\<close>

text \<open>
  \<^verbatim>\<open>bool **table\<close>: \<open>len + 1\<close> rows of \<open>len + 1\<close> entries each.
\<close>

type_synonym table = "bool list list"

text \<open>
  The fields \<^verbatim>\<open>len\<close> and \<^verbatim>\<open>table\<close> of a node: \<open>None\<close> is the NULL table that the
  make functions leave (with \<^verbatim>\<open>len\<close> not yet written), \<open>Some (len, table)\<close> what
  \<^verbatim>\<open>initTable\<close> allocates.
\<close>

type_synonym store = "(nat \<times> table) option"

text \<open>
  The \<^verbatim>\<open>locate\<close> function pointer of a node, one enumeration for each struct: the
  functions that the make functions of that struct assign.
\<close>

datatype symbol_locate =
  LocateSymbolPattern | LocateSymbolPatternPeriod
  | LocateSymbolPatternCarrot | LocateSymbolPatternAnchor

datatype binary_locate = LocateConcatenationPattern | LocateAlterationPattern

datatype repetition_locate = LocateOptionalPattern | LocatePlusPattern | LocateAsteriskPattern

text \<open>
  The four structs \<^verbatim>\<open>SymbolPattern\<close>, \<^verbatim>\<open>BinaryPattern\<close>, \<^verbatim>\<open>RepetitionPattern\<close> and
  \<^verbatim>\<open>CharacterClassPattern\<close>. A parent owns its children, so the tree is a datatype.
  (The field \<^verbatim>\<open>length\<close> of \<^verbatim>\<open>RepetitionPattern\<close> is never read or written.)
\<close>

datatype pattern =
  SymbolPattern store symbol_locate char
  | BinaryPattern store binary_locate pattern pattern
  | RepetitionPattern store repetition_locate pattern
  | CharacterClassPattern store string

fun store_of :: "pattern \<Rightarrow> store" where
  "store_of (SymbolPattern st f symb) = st"
| "store_of (BinaryPattern st f p1 p2) = st"
| "store_of (RepetitionPattern st f p) = st"
| "store_of (CharacterClassPattern st cclass) = st"

definition table_of :: "pattern \<Rightarrow> table" where
  "table_of pat = (case store_of pat of None \<Rightarrow> [] | Some (n, t) \<Rightarrow> t)"

text \<open>
  \<^verbatim>\<open>matches\<close> reads \<^verbatim>\<open>pat->table[begin][end]\<close>. The C code has no check: a read of a
  NULL table or outside the table is undefined there and unspecified here. Every call
  below is made on a located child with \<open>begin \<le> end \<le> len\<close>.
\<close>

definition matches :: "pattern \<Rightarrow> nat \<Rightarrow> nat \<Rightarrow> bool" where
  "matches pat begin end = table_of pat ! begin ! end"

text \<open>\<^verbatim>\<open>initTable\<close>: the old table is freed, the new one is all \<^verbatim>\<open>false\<close> (calloc).\<close>

definition initTable :: "string \<Rightarrow> table" where
  "initTable str = replicate (strlen str + 1) (replicate (strlen str + 1) False)"

text \<open>The assignment \<^verbatim>\<open>this->table[begin][end] = true\<close>.\<close>

definition mark :: "table \<Rightarrow> nat \<Rightarrow> nat \<Rightarrow> table" where
  "mark t begin end = t[begin := (t ! begin)[end := True]]"

subsection \<open>Make functions\<close>

definition makeSymbolPattern :: "char \<Rightarrow> pattern" where
  "makeSymbolPattern symb =
     (if symb = CHR ''^'' then SymbolPattern None LocateSymbolPatternCarrot symb
      else if symb = CHR ''.'' then SymbolPattern None LocateSymbolPatternPeriod symb
      else if symb = CHR ''$'' then SymbolPattern None LocateSymbolPatternAnchor symb
      else SymbolPattern None LocateSymbolPattern symb)"

definition makeConcatenationPattern :: "pattern \<Rightarrow> pattern \<Rightarrow> pattern" where
  "makeConcatenationPattern p1 p2 = BinaryPattern None LocateConcatenationPattern p1 p2"

definition makeAlterationPattern :: "pattern \<Rightarrow> pattern \<Rightarrow> pattern" where
  "makeAlterationPattern p1 p2 = BinaryPattern None LocateAlterationPattern p1 p2"

definition makeOptionalPattern :: "pattern \<Rightarrow> pattern" where
  "makeOptionalPattern p1 = RepetitionPattern None LocateOptionalPattern p1"

definition makeAsteriskPattern :: "pattern \<Rightarrow> pattern" where
  "makeAsteriskPattern pat = RepetitionPattern None LocateAsteriskPattern pat"

definition makePlusPattern :: "pattern \<Rightarrow> pattern" where
  "makePlusPattern pat = RepetitionPattern None LocatePlusPattern pat"

definition makeCharacterClassPattern :: "string \<Rightarrow> pattern" where
  "makeCharacterClassPattern symb = CharacterClassPattern None symb"

subsection \<open>The locate functions of the leaves\<close>

text \<open>
  Each function below is the body of the C function of the same name after
  \<^verbatim>\<open>initTable\<close>: it returns the filled table. A loop
  \<^verbatim>\<open>for ( int begin = 0; str[ begin ]; begin++ )\<close> runs over the positions before the
  terminator, a loop \<^verbatim>\<open>for (x = a; x <= b; x++)\<close> without a break over \<open>[a..<Suc b]\<close>.
\<close>

definition locateSymbolPattern :: "char \<Rightarrow> string \<Rightarrow> table" where
  "locateSymbolPattern symb str =
     fold (\<lambda>begin t. if str ! begin = symb then mark t begin (begin + 1) else t)
       [0..<strlen str] (initTable str)"

definition locateSymbolPatternPeriod :: "char \<Rightarrow> string \<Rightarrow> table" where
  "locateSymbolPatternPeriod symb str =
     fold (\<lambda>begin t.
         if char_val (str ! begin) \<ge> char_val CHR '' '' \<and> char_val (str ! begin) \<le> char_val CHR ''z''
         then mark t begin (begin + 1) else t)
       [0..<strlen str] (initTable str)"

definition locateSymbolPatternCarrot :: "char \<Rightarrow> string \<Rightarrow> table" where
  "locateSymbolPatternCarrot symb str =
     fold (\<lambda>begin t. if symb = CHR ''^'' \<and> begin = 0 then mark t begin begin else t)
       [0..<strlen str] (initTable str)"

text \<open>
  In \<^verbatim>\<open>begin == (strlen(str) - 1)\<close> the subtraction is unsigned; the body of the loop
  runs only when the string has a first character, so \<open>strlen str\<close> is positive there.
\<close>

definition locateSymbolPatternAnchor :: "char \<Rightarrow> string \<Rightarrow> table" where
  "locateSymbolPatternAnchor symb str =
     fold (\<lambda>begin t.
         if symb = CHR ''$'' \<and> begin = strlen str - 1 then mark t (begin + 1) (begin + 1) else t)
       [0..<strlen str] (initTable str)"

definition locateCharacterClassPattern :: "string \<Rightarrow> string \<Rightarrow> table" where
  "locateCharacterClassPattern cclass str =
     fold (\<lambda>begin.
         fold (\<lambda>i t. if str ! begin = cclass ! i then mark t begin (begin + 1) else t)
           [0..<strlen cclass])
       [0..<strlen str] (initTable str)"

subsection \<open>Concatenation\<close>

text \<open>The arguments \<open>p1\<close> and \<open>p2\<close> are the children after their own \<^verbatim>\<open>locate\<close>.\<close>

definition locateConcatenationPattern :: "pattern \<Rightarrow> pattern \<Rightarrow> string \<Rightarrow> table" where
  "locateConcatenationPattern p1 p2 str =
     fold (\<lambda>begin.
         fold (\<lambda>end.
             fold (\<lambda>k t. if matches p1 begin k \<and> matches p2 k end then mark t begin end else t)
               [begin..<Suc end])
           [begin..<Suc (strlen str)])
       [0..<Suc (strlen str)] (initTable str)"

subsection \<open>Alternation\<close>

text \<open>
  The two inner loops of each branch declare their own \<^verbatim>\<open>begin\<close> and \<^verbatim>\<open>end\<close>: they copy
  every true entry of one child.
\<close>

definition copy_matches :: "pattern \<Rightarrow> nat \<Rightarrow> table \<Rightarrow> table" where
  "copy_matches p len t =
     fold (\<lambda>begin.
         fold (\<lambda>end t. if matches p begin end then mark t begin end else t) [begin..<Suc len])
       [0..<Suc len] t"

text \<open>
  The loop over \<^verbatim>\<open>end\<close>, on the values of \<^verbatim>\<open>end\<close> still to visit. The flag returned
  says that the loop was left by \<^verbatim>\<open>begin = end = (this->len + 1); break;\<close>, which
  also ends the loop over \<^verbatim>\<open>begin\<close>.
\<close>

fun alteration_ends :: "pattern \<Rightarrow> pattern \<Rightarrow> nat \<Rightarrow> nat \<Rightarrow> nat list \<Rightarrow> table \<Rightarrow> table \<times> bool" where
  "alteration_ends p1 p2 len begin [] t = (t, False)"
| "alteration_ends p1 p2 len begin (end # ends) t =
     (if matches p1 begin end then (copy_matches p1 len t, True)
      else if matches p2 begin end then (copy_matches p2 len t, True)
      else alteration_ends p1 p2 len begin ends t)"

fun alteration_begins :: "pattern \<Rightarrow> pattern \<Rightarrow> nat \<Rightarrow> nat list \<Rightarrow> table \<Rightarrow> table" where
  "alteration_begins p1 p2 len [] t = t"
| "alteration_begins p1 p2 len (begin # begins) t =
     (case alteration_ends p1 p2 len begin [begin..<Suc len] t of
        (t', True) \<Rightarrow> t'
      | (t', False) \<Rightarrow> alteration_begins p1 p2 len begins t')"

definition locateAlterationPattern :: "pattern \<Rightarrow> pattern \<Rightarrow> string \<Rightarrow> table" where
  "locateAlterationPattern p1 p2 str =
     alteration_begins p1 p2 (strlen str) [0..<Suc (strlen str)] (initTable str)"

subsection \<open>Optional\<close>

fun optional_ends :: "pattern \<Rightarrow> nat \<Rightarrow> nat list \<Rightarrow> table \<Rightarrow> table \<times> bool" where
  "optional_ends symb begin [] t = (t, False)"
| "optional_ends symb begin (end # ends) t =
     (if matches symb begin end then (mark t begin end, True)
      else optional_ends symb begin ends (mark t begin end))"

fun optional_begins :: "pattern \<Rightarrow> nat \<Rightarrow> nat list \<Rightarrow> table \<Rightarrow> table" where
  "optional_begins symb len [] t = t"
| "optional_begins symb len (begin # begins) t =
     (case optional_ends symb begin [begin..<Suc len] t of
        (t', True) \<Rightarrow> t'
      | (t', False) \<Rightarrow> optional_begins symb len begins t')"

definition locateOptionalPattern :: "pattern \<Rightarrow> string \<Rightarrow> table" where
  "locateOptionalPattern symb str =
     optional_begins symb (strlen str) [0..<Suc (strlen str)] (initTable str)"

subsection \<open>Plus\<close>

text \<open>
  The \<^verbatim>\<open>while\<close> loop of \<^verbatim>\<open>locatePlusPattern\<close>, from the current \<^verbatim>\<open>i\<close> and \<^verbatim>\<open>steps\<close>; it
  returns the final \<^verbatim>\<open>steps\<close>.
\<close>

function plus_steps :: "pattern \<Rightarrow> nat \<Rightarrow> nat \<Rightarrow> nat \<Rightarrow> nat \<Rightarrow> nat \<Rightarrow> nat" where
  "plus_steps symb len begin end i steps =
     (if begin + i \<le> len \<and> end + i \<le> len
      then plus_steps symb len begin end (i + 1)
             (if matches symb (begin + i) (end + i) then i else steps)
      else steps)"
  by pat_completeness auto
termination
  by (relation "measure (\<lambda>(symb, len, begin, end, i, steps). Suc len - (end + i))") auto

declare plus_steps.simps [simp del]

definition locatePlusPattern :: "pattern \<Rightarrow> string \<Rightarrow> table" where
  "locatePlusPattern symb str =
     fold (\<lambda>begin.
         fold (\<lambda>end t.
             if matches symb begin end
             then mark t begin (end + plus_steps symb (strlen str) begin end 0 0)
             else t)
           [begin..<Suc (strlen str)])
       [0..<Suc (strlen str)] (initTable str)"

subsection \<open>Asterisk\<close>

definition locateAsteriskPattern :: "pattern \<Rightarrow> string \<Rightarrow> table" where
  "locateAsteriskPattern symb str =
     fold (\<lambda>begin t.
         fold (\<lambda>end.
             fold (\<lambda>k t. if matches symb begin k \<or> matches symb k end then mark t begin end else t)
               [begin..<Suc end])
           [begin..<Suc (strlen str)] (mark t begin begin))
       [0..<Suc (strlen str)] (initTable str)"

subsection \<open>The call through the function pointer\<close>

text \<open>
  \<^verbatim>\<open>pat->locate( pat, str )\<close>: the node gets a fresh table for \<open>str\<close>, a composite node
  first lets its children locate, then fills its own table from theirs. The result is
  the tree with the new tables.
\<close>

fun locate :: "pattern \<Rightarrow> string \<Rightarrow> pattern" where
  "locate (SymbolPattern st f symb) str =
     SymbolPattern
       (Some (strlen str,
          case f of
            LocateSymbolPattern \<Rightarrow> locateSymbolPattern symb str
          | LocateSymbolPatternPeriod \<Rightarrow> locateSymbolPatternPeriod symb str
          | LocateSymbolPatternCarrot \<Rightarrow> locateSymbolPatternCarrot symb str
          | LocateSymbolPatternAnchor \<Rightarrow> locateSymbolPatternAnchor symb str))
       f symb"
| "locate (BinaryPattern st f p1 p2) str =
     (let q1 = locate p1 str; q2 = locate p2 str
      in BinaryPattern
           (Some (strlen str,
              case f of
                LocateConcatenationPattern \<Rightarrow> locateConcatenationPattern q1 q2 str
              | LocateAlterationPattern \<Rightarrow> locateAlterationPattern q1 q2 str))
           f q1 q2)"
| "locate (RepetitionPattern st f symb) str =
     (let q = locate symb str
      in RepetitionPattern
           (Some (strlen str,
              case f of
                LocateOptionalPattern \<Rightarrow> locateOptionalPattern q str
              | LocatePlusPattern \<Rightarrow> locatePlusPattern q str
              | LocateAsteriskPattern \<Rightarrow> locateAsteriskPattern q str))
           f q)"
| "locate (CharacterClassPattern st cclass) str =
     CharacterClassPattern (Some (strlen str, locateCharacterClassPattern cclass str)) cclass"

section \<open>The parser (parse.c)\<close>

text \<open>
  \<^verbatim>\<open>invalidPattern()\<close> prints a message and exits: the parse ends with
  \<open>InvalidPattern\<close>. \<open>OutOfBounds\<close> is a read of \<^verbatim>\<open>str[ *pos ]\<close> behind the terminator
  of \<^verbatim>\<open>str\<close>, where C defines no behaviour. \<open>OutOfFuel\<close> belongs to the model only:
  a counter bounds the rounds of a loop whose progress is made by the calls in its body,
  and the depth of the groups.
\<close>

datatype error = InvalidPattern | OutOfBounds | OutOfFuel

text \<open>The read \<^verbatim>\<open>str[ pos ]\<close>: a character, the terminator, or a read out of bounds.\<close>

definition char_at :: "string \<Rightarrow> nat \<Rightarrow> error + char" where
  "char_at str pos =
     (if pos < strlen str then Inr (str ! pos)
      else if pos = strlen str then Inr NUL
      else Inl OutOfBounds)"

text \<open>
  \<^verbatim>\<open>strchr( s, c )\<close> as a condition, for a literal \<open>s\<close>: not NULL when \<open>c\<close> occurs in
  \<open>s\<close>, and also when \<open>c\<close> is the terminator, which \<^verbatim>\<open>strchr\<close> finds at the end of \<open>s\<close>.
\<close>

definition strchr :: "string \<Rightarrow> char \<Rightarrow> bool" where
  "strchr s c = (c = NUL \<or> c \<in> set s)"

definition ordinary :: "char \<Rightarrow> bool" where
  "ordinary c = (if strchr ''.^$*?+|()[{'' c then False else True)"

text \<open>
  The loop \<^verbatim>\<open>while (str[ *pos] != ')')\<close> of the group branch, which copies into
  \<^verbatim>\<open>subs\<close>. It has no test for the terminator: at the end of the string it copies the
  NUL and reads on. It returns the text copied and the position of the \<^verbatim>\<open>)\<close>.
\<close>

function group_scan :: "string \<Rightarrow> nat \<Rightarrow> string \<Rightarrow> error + string \<times> nat" where
  "group_scan str pos subs =
     (case char_at str pos of
        Inl e \<Rightarrow> Inl e
      | Inr c \<Rightarrow>
          if c \<noteq> CHR '')'' then group_scan str (pos + 1) (subs @ [c])
          else Inr (subs, pos))"
  by pat_completeness auto
termination
  by (relation "measure (\<lambda>(str, pos, subs). Suc (strlen str) - pos)")
    (auto simp: char_at_def split: if_splits)

declare group_scan.simps [simp del]

text \<open>
  The loop \<^verbatim>\<open>while (str[ *pos] != ']')\<close> of the class branch, which tests for the
  terminator before it copies.
\<close>

function class_scan :: "string \<Rightarrow> nat \<Rightarrow> string \<Rightarrow> error + string \<times> nat" where
  "class_scan str pos subs =
     (case char_at str pos of
        Inl e \<Rightarrow> Inl e
      | Inr c \<Rightarrow>
          if c \<noteq> CHR '']'' then
            (if c = NUL then Inl InvalidPattern
             else class_scan str (pos + 1) (subs @ [c]))
          else Inr (subs, pos))"
  by pat_completeness auto
termination
  by (relation "measure (\<lambda>(str, pos, subs). Suc (strlen str) - pos)")
    (auto simp: char_at_def split: if_splits)

declare class_scan.simps [simp del]

text \<open>The loop of \<^verbatim>\<open>parseRepetition\<close> over the suffixes \<^verbatim>\<open>*\<close>, \<^verbatim>\<open>+\<close> and \<^verbatim>\<open>?\<close>.\<close>

function repetition_loop :: "string \<Rightarrow> pattern \<Rightarrow> nat \<Rightarrow> error + pattern \<times> nat" where
  "repetition_loop str p pos =
     (case char_at str pos of
        Inl e \<Rightarrow> Inl e
      | Inr c \<Rightarrow>
          if c \<noteq> NUL \<and> (c = CHR ''*'' \<or> c = CHR ''+'' \<or> c = CHR ''?'') then
            (if c = CHR ''*'' then repetition_loop str (makeAsteriskPattern p) (pos + 1)
             else if c = CHR ''+'' then repetition_loop str (makePlusPattern p) (pos + 1)
             else repetition_loop str (makeOptionalPattern p) (pos + 1))
          else Inr (p, pos))"
  by pat_completeness auto
termination
  by (relation "measure (\<lambda>(str, p, pos). Suc (strlen str) - pos)")
    (auto simp: char_at_def split: if_splits)

declare repetition_loop.simps [simp del]

text \<open>
  The parsing functions. Each takes the position \<^verbatim>\<open>*pos\<close> and returns the pattern with
  the new position. The recursion of the C code goes through \<^verbatim>\<open>parsePattern(subs)\<close> in
  the group branch only; here that call is the argument \<open>rec\<close>, which \<open>parsePatternF\<close>
  below closes.

  The \<^verbatim>\<open>while\<close> of \<^verbatim>\<open>parseAtomicPattern\<close> returns in its first round, so it is a
  conditional. In the group branch \<^verbatim>\<open>subs\<close> is the text up to the first \<^verbatim>\<open>)\<close>.
\<close>

definition parseAtomicPattern ::
  "(string \<Rightarrow> error + pattern) \<Rightarrow> string \<Rightarrow> nat \<Rightarrow> error + pattern \<times> nat" where
  "parseAtomicPattern rec str pos =
     (case char_at str pos of
        Inl e \<Rightarrow> Inl e
      | Inr c \<Rightarrow>
          if ordinary c then Inr (makeSymbolPattern c, pos + 1)
          else if c \<noteq> NUL \<and> strchr ''.^$(['' c then
            (if c = CHR ''('' then
               (case group_scan str (pos + 1) [] of
                  Inl e \<Rightarrow> Inl e
                | Inr (subs, pos') \<Rightarrow>
                    (case rec subs of
                       Inl e \<Rightarrow> Inl e
                     | Inr pat \<Rightarrow> Inr (pat, pos' + 1)))
             else if c = CHR ''['' then
               (case class_scan str (pos + 1) [] of
                  Inl e \<Rightarrow> Inl e
                | Inr (subs, pos') \<Rightarrow> Inr (makeCharacterClassPattern subs, pos' + 1))
             else Inr (makeSymbolPattern c, pos + 1))
          else Inl InvalidPattern)"

definition parseRepetition ::
  "(string \<Rightarrow> error + pattern) \<Rightarrow> string \<Rightarrow> nat \<Rightarrow> error + pattern \<times> nat" where
  "parseRepetition rec str pos =
     (case parseAtomicPattern rec str pos of
        Inl e \<Rightarrow> Inl e
      | Inr (p, pos') \<Rightarrow> repetition_loop str p pos')"

text \<open>The loop of \<^verbatim>\<open>parseConcatenation\<close>, with a bound on its rounds.\<close>

fun concatenation_loop ::
  "(string \<Rightarrow> error + pattern) \<Rightarrow> nat \<Rightarrow> string \<Rightarrow> pattern \<Rightarrow> nat \<Rightarrow> error + pattern \<times> nat" where
  "concatenation_loop rec 0 str p1 pos = Inl OutOfFuel"
| "concatenation_loop rec (Suc n) str p1 pos =
     (case char_at str pos of
        Inl e \<Rightarrow> Inl e
      | Inr c \<Rightarrow>
          if c \<noteq> NUL \<and> c \<noteq> CHR ''|'' \<and> c \<noteq> CHR '')'' then
            (case parseRepetition rec str pos of
               Inl e \<Rightarrow> Inl e
             | Inr (p2, pos') \<Rightarrow>
                 concatenation_loop rec n str (makeConcatenationPattern p1 p2) pos')
          else Inr (p1, pos))"

definition parseConcatenation ::
  "(string \<Rightarrow> error + pattern) \<Rightarrow> string \<Rightarrow> nat \<Rightarrow> error + pattern \<times> nat" where
  "parseConcatenation rec str pos =
     (case parseRepetition rec str pos of
        Inl e \<Rightarrow> Inl e
      | Inr (p1, pos') \<Rightarrow> concatenation_loop rec (Suc (strlen str)) str p1 pos')"

text \<open>The loop of \<^verbatim>\<open>parseAlternation\<close>, with a bound on its rounds.\<close>

fun alternation_loop ::
  "(string \<Rightarrow> error + pattern) \<Rightarrow> nat \<Rightarrow> string \<Rightarrow> pattern \<Rightarrow> nat \<Rightarrow> error + pattern \<times> nat" where
  "alternation_loop rec 0 str p1 pos = Inl OutOfFuel"
| "alternation_loop rec (Suc n) str p1 pos =
     (case char_at str pos of
        Inl e \<Rightarrow> Inl e
      | Inr c \<Rightarrow>
          if c \<noteq> NUL \<and> c = CHR ''|'' then
            (case parseConcatenation rec str (pos + 1) of
               Inl e \<Rightarrow> Inl e
             | Inr (p2, pos') \<Rightarrow>
                 alternation_loop rec n str (makeAlterationPattern p1 p2) pos')
          else Inr (p1, pos))"

definition parseAlternation ::
  "(string \<Rightarrow> error + pattern) \<Rightarrow> string \<Rightarrow> nat \<Rightarrow> error + pattern \<times> nat" where
  "parseAlternation rec str pos =
     (case parseConcatenation rec str pos of
        Inl e \<Rightarrow> Inl e
      | Inr (p1, pos') \<Rightarrow> alternation_loop rec (Suc (strlen str)) str p1 pos')"

text \<open>
  The body of \<^verbatim>\<open>parsePattern\<close>; \<open>parsePatternF n\<close> parses patterns whose groups nest
  less than \<open>n\<close> deep.
\<close>

definition parsePattern_body :: "(string \<Rightarrow> error + pattern) \<Rightarrow> string \<Rightarrow> error + pattern" where
  "parsePattern_body rec str =
     (case parseAlternation rec str 0 of
        Inl e \<Rightarrow> Inl e
      | Inr (pat, pos) \<Rightarrow>
          (case char_at str pos of
             Inl e \<Rightarrow> Inl e
           | Inr c \<Rightarrow> if c \<noteq> NUL then Inl InvalidPattern else Inr pat))"

primrec parsePatternF :: "nat \<Rightarrow> string \<Rightarrow> error + pattern" where
  "parsePatternF 0 = (\<lambda>str. Inl OutOfFuel)"
| "parsePatternF (Suc n) = parsePattern_body (parsePatternF n)"

text \<open>
  \<^verbatim>\<open>parsePattern\<close>. The text of a group is shorter than the pattern around it, so a
  pattern of \<open>strlen str\<close> characters has its groups less than \<open>Suc (strlen str)\<close> deep.
\<close>

definition parsePattern :: "string \<Rightarrow> error + pattern" where
  "parsePattern str = parsePatternF (Suc (strlen str)) str"

section \<open>Notions for the statements and the proofs\<close>

text \<open>
  A table of \<open>n\<close> rows of \<open>n\<close> entries, and a step \<open>f\<close> of a locate function that keeps
  that shape and sets to true exactly the entries \<open>M\<close> (it leaves every other entry as
  it was).
\<close>

definition square :: "nat \<Rightarrow> table \<Rightarrow> bool" where
  "square n t = (length t = n \<and> (\<forall>r \<in> set t. length r = n))"

definition fills :: "nat \<Rightarrow> (table \<Rightarrow> table) \<Rightarrow> (nat \<Rightarrow> nat \<Rightarrow> bool) \<Rightarrow> bool" where
  "fills n f M =
     (\<forall>t. square n t \<longrightarrow>
        square n (f t) \<and> (\<forall>b<n. \<forall>e<n. f t ! b ! e = (t ! b ! e \<or> M b e)))"

text \<open>
  The match relation of a located child \<open>c\<close> as edges between the positions \<open>0..len\<close>:
  one hop from \<open>x\<close> to \<open>y\<close> needs \<open>matches c x y\<close>. Reachability by zero or more hops is
  its reflexive-transitive closure, by one or more hops its transitive closure.
\<close>

definition hop :: "pattern \<Rightarrow> nat \<Rightarrow> nat \<Rightarrow> nat \<Rightarrow> bool" where
  "hop c len x y = (x \<le> y \<and> y \<le> len \<and> matches c x y)"

section \<open>Tables and their entries\<close>

lemma square_initTable: "square (Suc (strlen str)) (initTable str)"
  by (simp add: square_def initTable_def)

lemma initTable_nth:
  "b \<le> strlen str \<Longrightarrow> e \<le> strlen str \<Longrightarrow> initTable str ! b ! e = False"
  by (simp add: initTable_def del: replicate.simps)

lemma square_mark: "square n t \<Longrightarrow> square n (mark t b e)"
proof (cases "b < length t")
  case True
  assume sq: "square n t"
  have "length ((t ! b)[e := True]) = n"
    using sq True by (simp add: square_def)
  moreover have "set (t[b := (t ! b)[e := True]]) \<subseteq> insert ((t ! b)[e := True]) (set t)"
    by (rule set_update_subset_insert)
  ultimately show ?thesis
    using sq unfolding square_def mark_def by auto
next
  case False
  assume "square n t"
  with False show ?thesis by (simp add: mark_def list_update_beyond)
qed

lemma mark_nth:
  "square n t \<Longrightarrow> b' < n \<Longrightarrow> e' < n \<Longrightarrow> b < n \<Longrightarrow> e < n \<Longrightarrow>
   mark t b e ! b' ! e' = (t ! b' ! e' \<or> (b' = b \<and> e' = e))"
  by (auto simp: square_def mark_def nth_list_update)

lemma fills_mark: "b < n \<Longrightarrow> e < n \<Longrightarrow> fills n (\<lambda>t. mark t b e) (\<lambda>b' e'. b' = b \<and> e' = e)"
  by (simp add: fills_def square_mark mark_nth)

lemma fills_if:
  "(c \<Longrightarrow> fills n f M) \<Longrightarrow> fills n (\<lambda>t. if c then f t else t) (\<lambda>b e. c \<and> M b e)"
  by (simp add: fills_def)

lemma fills_cong:
  "fills n f M \<Longrightarrow> (\<And>b e. b < n \<Longrightarrow> e < n \<Longrightarrow> M b e = M' b e) \<Longrightarrow> fills n f M'"
  by (simp add: fills_def)

text \<open>A loop sets what its rounds set.\<close>

lemma fills_fold:
  assumes "\<And>x. x \<in> set xs \<Longrightarrow> fills n (f x) (M x)"
  shows "fills n (fold f xs) (\<lambda>b e. \<exists>x \<in> set xs. M x b e)"
  using assms
proof (induction xs)
  case Nil
  show ?case by (simp add: fills_def)
next
  case (Cons x xs)
  have first: "fills n (f x) (M x)" by (simp add: Cons.prems)
  have rest: "fills n (fold f xs) (\<lambda>b e. \<exists>x \<in> set xs. M x b e)"
    by (rule Cons.IH) (simp add: Cons.prems)
  show ?case
    unfolding fills_def
  proof (intro allI impI)
    fix t assume sq: "square n t"
    from first sq have 1: "square n (f x t)" "\<forall>b<n. \<forall>e<n. f x t ! b ! e = (t ! b ! e \<or> M x b e)"
      by (simp_all add: fills_def)
    from rest 1(1) have 2: "square n (fold f xs (f x t))"
      "\<forall>b<n. \<forall>e<n. fold f xs (f x t) ! b ! e = (f x t ! b ! e \<or> (\<exists>x \<in> set xs. M x b e))"
      by (simp_all add: fills_def)
    show "square n (fold f (x # xs) t) \<and>
      (\<forall>b<n. \<forall>e<n. fold f (x # xs) t ! b ! e = (t ! b ! e \<or> (\<exists>y \<in> set (x # xs). M y b e)))"
      using 1 2 by auto
  qed
qed

text \<open>On the fresh table the entries set are the entries that are true.\<close>

lemma fills_initTable:
  "fills (Suc (strlen str)) f M \<Longrightarrow> b \<le> strlen str \<Longrightarrow> e \<le> strlen str \<Longrightarrow>
   f (initTable str) ! b ! e = M b e"
  using square_initTable [of str] initTable_nth [of b str e]
  by (simp add: fills_def less_Suc_eq_le)

section \<open>The counters of the parser\<close>

text \<open>
  Every call that returns a pattern has moved the position forward and not behind the
  terminator, and the text of a group is shorter than the pattern around it. So the
  loops end before their counters, and \<open>parsePattern\<close> never ends with \<open>OutOfFuel\<close>:
  its results are those of the C code.
\<close>

lemma strlen_le_length: "strlen s \<le> length s"
  by (simp add: strlen_def length_takeWhile_le)

lemma char_at_not_NUL: "char_at str pos = Inr c \<Longrightarrow> c \<noteq> NUL \<Longrightarrow> pos < strlen str"
  by (auto simp: char_at_def split: if_splits)

lemma char_at_error: "char_at str pos = Inl e \<Longrightarrow> e = OutOfBounds"
  by (auto simp: char_at_def split: if_splits)

lemma char_at_in_range: "pos \<le> strlen str \<Longrightarrow> \<exists>c. char_at str pos = Inr c"
  by (auto simp: char_at_def)

lemma group_scan_pos:
  "group_scan str pos subs = Inr (s, p) \<Longrightarrow>
   pos \<le> p \<and> p < strlen str \<and> length s = length subs + (p - pos)"
proof (induction str pos subs rule: group_scan.induct)
  case (1 str pos subs)
  show ?case
  proof (cases "char_at str pos")
    case (Inl e)
    with "1.prems" show ?thesis by (simp add: group_scan.simps [of str pos])
  next
    case (Inr c)
    show ?thesis
    proof (cases "c = CHR '')''")
      case True
      with Inr "1.prems" char_at_not_NUL [OF Inr] show ?thesis
        by (simp add: group_scan.simps [of str pos])
    next
      case False
      with Inr "1.prems" have "group_scan str (pos + 1) (subs @ [c]) = Inr (s, p)"
        by (simp add: group_scan.simps [of str pos])
      from "1.IH" [OF Inr False this] show ?thesis by (auto simp: group_scan.simps [of str pos])
    qed
  qed
qed

lemma group_scan_error: "group_scan str pos subs = Inl e \<Longrightarrow> e = OutOfBounds"
proof (induction str pos subs rule: group_scan.induct)
  case (1 str pos subs)
  show ?case
  proof (cases "char_at str pos")
    case (Inl e')
    with "1.prems" char_at_error [OF Inl] show ?thesis by (simp add: group_scan.simps [of str pos])
  next
    case (Inr c)
    show ?thesis
    proof (cases "c = CHR '')''")
      case True
      with Inr "1.prems" show ?thesis by (simp add: group_scan.simps [of str pos])
    next
      case False
      with Inr "1.prems" have "group_scan str (pos + 1) (subs @ [c]) = Inl e"
        by (simp add: group_scan.simps [of str pos])
      from "1.IH" [OF Inr False this] show ?thesis .
    qed
  qed
qed

lemma class_scan_pos:
  "class_scan str pos subs = Inr (s, p) \<Longrightarrow> pos \<le> p \<and> p < strlen str"
proof (induction str pos subs rule: class_scan.induct)
  case (1 str pos subs)
  show ?case
  proof (cases "char_at str pos")
    case (Inl e)
    with "1.prems" show ?thesis by (simp add: class_scan.simps [of str pos])
  next
    case (Inr c)
    show ?thesis
    proof (cases "c = CHR '']''")
      case True
      with Inr "1.prems" char_at_not_NUL [OF Inr] show ?thesis
        by (simp add: class_scan.simps [of str pos])
    next
      case False
      with Inr "1.prems" have nz: "c \<noteq> NUL"
        by (auto simp: class_scan.simps [of str pos] split: if_splits)
      with False Inr "1.prems" have "class_scan str (pos + 1) (subs @ [c]) = Inr (s, p)"
        by (simp add: class_scan.simps [of str pos])
      from "1.IH" [OF Inr False nz this] show ?thesis by (simp add: class_scan.simps [of str pos])
    qed
  qed
qed

lemma class_scan_error: "class_scan str pos subs = Inl e \<Longrightarrow> e \<noteq> OutOfFuel"
proof (induction str pos subs rule: class_scan.induct)
  case (1 str pos subs)
  show ?case
  proof (cases "char_at str pos")
    case (Inl e')
    with "1.prems" char_at_error [OF Inl] show ?thesis by (simp add: class_scan.simps [of str pos])
  next
    case (Inr c)
    show ?thesis
    proof (cases "c \<noteq> CHR '']'' \<and> c \<noteq> NUL")
      case True
      with Inr "1.prems" have "class_scan str (pos + 1) (subs @ [c]) = Inl e"
        by (simp add: class_scan.simps [of str pos])
      from "1.IH" [OF Inr _ _ this] True show ?thesis by (simp add: class_scan.simps [of str pos])
    next
      case False
      with Inr "1.prems" show ?thesis by (auto simp: class_scan.simps [of str pos] split: if_splits)
    qed
  qed
qed

lemma repetition_loop_pos:
  "repetition_loop str p pos = Inr (q, pos') \<Longrightarrow> pos \<le> strlen str \<Longrightarrow>
   pos \<le> pos' \<and> pos' \<le> strlen str"
proof (induction str p pos rule: repetition_loop.induct)
  case (1 str p pos)
  show ?case
  proof (cases "char_at str pos")
    case (Inl e)
    with "1.prems" show ?thesis by (simp add: repetition_loop.simps [of str p pos])
  next
    case (Inr c)
    show ?thesis
    proof (cases "c \<noteq> NUL \<and> (c = CHR ''*'' \<or> c = CHR ''+'' \<or> c = CHR ''?'')")
      case False
      with Inr "1.prems" show ?thesis by (auto simp: repetition_loop.simps [of str p pos])
    next
      case True
      then have lt: "pos < strlen str" using char_at_not_NUL [OF Inr]
        by (simp add: repetition_loop.simps [of str p pos])
      then have le: "pos + 1 \<le> strlen str" by (simp add: repetition_loop.simps [of str p pos])
      consider "c = CHR ''*''" | "c \<noteq> CHR ''*''" "c = CHR ''+''"
        | "c \<noteq> CHR ''*''" "c \<noteq> CHR ''+''" by blast
      then show ?thesis
      proof cases
        case 1
        with Inr True "1.prems" have "repetition_loop str (makeAsteriskPattern p) (pos + 1) = Inr (q, pos')"
          by (simp add: repetition_loop.simps [of str p pos])
        from "1.IH"(1) [OF Inr True 1 this le] show ?thesis
          by (simp add: repetition_loop.simps [of str p pos])
      next
        case 2
        with Inr True "1.prems" have "repetition_loop str (makePlusPattern p) (pos + 1) = Inr (q, pos')"
          by (simp add: repetition_loop.simps [of str p pos])
        from "1.IH"(2) [OF Inr True 2 this le] show ?thesis
          by (simp add: repetition_loop.simps [of str p pos])
      next
        case 3
        with Inr True "1.prems" have "repetition_loop str (makeOptionalPattern p) (pos + 1) = Inr (q, pos')"
          by (simp add: repetition_loop.simps [of str p pos])
        from "1.IH"(3) [OF Inr True 3 this le] show ?thesis
          by (simp add: repetition_loop.simps [of str p pos])
      qed
    qed
  qed
qed

lemma repetition_loop_error: "repetition_loop str p pos = Inl e \<Longrightarrow> e = OutOfBounds"
proof (induction str p pos rule: repetition_loop.induct)
  case (1 str p pos)
  show ?case
  proof (cases "char_at str pos")
    case (Inl e')
    with "1.prems" char_at_error [OF Inl] show ?thesis
      by (simp add: repetition_loop.simps [of str p pos])
  next
    case (Inr c)
    show ?thesis
    proof (cases "c \<noteq> NUL \<and> (c = CHR ''*'' \<or> c = CHR ''+'' \<or> c = CHR ''?'')")
      case False
      with Inr "1.prems" show ?thesis by (auto simp: repetition_loop.simps [of str p pos])
    next
      case True
      consider "c = CHR ''*''" | "c \<noteq> CHR ''*''" "c = CHR ''+''"
        | "c \<noteq> CHR ''*''" "c \<noteq> CHR ''+''" by blast
      then show ?thesis
      proof cases
        case 1
        with Inr True "1.prems" have "repetition_loop str (makeAsteriskPattern p) (pos + 1) = Inl e"
          by (simp add: repetition_loop.simps [of str p pos])
        from "1.IH"(1) [OF Inr True 1 this] show ?thesis .
      next
        case 2
        with Inr True "1.prems" have "repetition_loop str (makePlusPattern p) (pos + 1) = Inl e"
          by (simp add: repetition_loop.simps [of str p pos])
        from "1.IH"(2) [OF Inr True 2 this] show ?thesis .
      next
        case 3
        with Inr True "1.prems" have "repetition_loop str (makeOptionalPattern p) (pos + 1) = Inl e"
          by (simp add: repetition_loop.simps [of str p pos])
        from "1.IH"(3) [OF Inr True 3 this] show ?thesis .
      qed
    qed
  qed
qed

lemma ordinary_not_NUL: "ordinary c \<Longrightarrow> c \<noteq> NUL"
  by (auto simp: ordinary_def strchr_def split: if_splits)

lemma parseAtomicPattern_pos:
  assumes "parseAtomicPattern rec str pos = Inr (p, pos')"
  shows "pos < pos' \<and> pos' \<le> strlen str"
proof (cases "char_at str pos")
  case (Inl e)
  with assms show ?thesis by (simp add: parseAtomicPattern_def)
next
  case (Inr c)
  show ?thesis
  proof (cases "ordinary c")
    case True
    with assms Inr char_at_not_NUL [OF Inr ordinary_not_NUL [OF True]] show ?thesis
      by (auto simp: parseAtomicPattern_def)
  next
    case False
    show ?thesis
    proof (cases "c \<noteq> NUL \<and> strchr ''.^$(['' c")
      case no: False
      with assms Inr False show ?thesis by (simp add: parseAtomicPattern_def)
    next
      case yes: True
      then have lt: "pos < strlen str" using char_at_not_NUL [OF Inr] by simp
      consider "c = CHR ''(''" | "c \<noteq> CHR ''(''" "c = CHR ''[''"
        | "c \<noteq> CHR ''(''" "c \<noteq> CHR ''[''" by blast
      then show ?thesis
      proof cases
        case 1
        with assms Inr False yes obtain subs g where g: "group_scan str (pos + 1) [] = Inr (subs, g)"
          and "pos' = g + 1"
          by (simp add: parseAtomicPattern_def split: sum.splits prod.splits)
        with group_scan_pos [OF g] show ?thesis by simp
      next
        case 2
        with assms Inr False yes obtain subs g where g: "class_scan str (pos + 1) [] = Inr (subs, g)"
          and "pos' = g + 1"
          by (simp add: parseAtomicPattern_def split: sum.splits prod.splits)
        with class_scan_pos [OF g] show ?thesis by simp
      next
        case 3
        with assms Inr False yes lt show ?thesis by (simp add: parseAtomicPattern_def)
      qed
    qed
  qed
qed

lemma parseAtomicPattern_fuel:
  assumes rec: "\<And>s. strlen s < strlen str \<Longrightarrow> rec s \<noteq> Inl OutOfFuel"
  shows "parseAtomicPattern rec str pos \<noteq> Inl OutOfFuel"
proof (cases "char_at str pos")
  case (Inl e)
  with char_at_error [OF Inl] show ?thesis by (simp add: parseAtomicPattern_def)
next
  case (Inr c)
  consider "ordinary c" | "\<not> ordinary c" "\<not> (c \<noteq> NUL \<and> strchr ''.^$(['' c)"
    | "\<not> ordinary c" "c \<noteq> NUL \<and> strchr ''.^$(['' c" "c = CHR ''(''"
    | "\<not> ordinary c" "c \<noteq> NUL \<and> strchr ''.^$(['' c" "c \<noteq> CHR ''(''" "c = CHR ''[''"
    | "\<not> ordinary c" "c \<noteq> NUL \<and> strchr ''.^$(['' c" "c \<noteq> CHR ''(''" "c \<noteq> CHR ''[''"
    by blast
  then show ?thesis
  proof cases
    case 1
    with Inr show ?thesis by (simp add: parseAtomicPattern_def)
  next
    case 2
    with Inr show ?thesis by (auto simp: parseAtomicPattern_def)
  next
    case 3
    show ?thesis
    proof (cases "group_scan str (pos + 1) []")
      case (Inl e)
      with group_scan_error [OF Inl] Inr 3 show ?thesis by (simp add: parseAtomicPattern_def)
    next
      case g: (Inr r)
      obtain subs m where r: "r = (subs, m)" by (cases r)
      from group_scan_pos [OF g [unfolded r]] have "length subs < strlen str"
        by (simp add: less_imp_diff_less)
      with strlen_le_length [of subs] have "strlen subs < strlen str" by simp
      then have "rec subs \<noteq> Inl OutOfFuel" by (rule rec)
      with Inr 3 g r show ?thesis
        by (auto simp: parseAtomicPattern_def split: sum.splits)
    qed
  next
    case 4
    show ?thesis
    proof (cases "class_scan str (pos + 1) []")
      case (Inl e)
      with class_scan_error [OF Inl] Inr 4 show ?thesis by (simp add: parseAtomicPattern_def)
    next
      case g: (Inr r)
      with Inr 4 show ?thesis
        by (simp add: parseAtomicPattern_def split: prod.splits)
    qed
  next
    case 5
    with Inr show ?thesis by (simp add: parseAtomicPattern_def)
  qed
qed

lemma parseRepetition_pos:
  assumes "parseRepetition rec str pos = Inr (p, pos')"
  shows "pos < pos' \<and> pos' \<le> strlen str"
proof -
  from assms obtain q m where a: "parseAtomicPattern rec str pos = Inr (q, m)"
    and r: "repetition_loop str q m = Inr (p, pos')"
    by (auto simp: parseRepetition_def split: sum.splits prod.splits)
  from parseAtomicPattern_pos [OF a] repetition_loop_pos [OF r] show ?thesis by simp
qed

lemma parseRepetition_fuel:
  assumes rec: "\<And>s. strlen s < strlen str \<Longrightarrow> rec s \<noteq> Inl OutOfFuel"
  shows "parseRepetition rec str pos \<noteq> Inl OutOfFuel"
  using parseAtomicPattern_fuel [of str rec pos, OF rec]
  by (auto simp: parseRepetition_def split: sum.splits prod.splits dest: repetition_loop_error)

lemma concatenation_loop_fuel:
  assumes rec: "\<And>s. strlen s < strlen str \<Longrightarrow> rec s \<noteq> Inl OutOfFuel"
  shows "strlen str - pos < n \<Longrightarrow> pos \<le> strlen str \<Longrightarrow>
    concatenation_loop rec n str p1 pos \<noteq> Inl OutOfFuel \<and>
    (\<forall>p pos'. concatenation_loop rec n str p1 pos = Inr (p, pos') \<longrightarrow>
       pos \<le> pos' \<and> pos' \<le> strlen str)"
proof (induction n arbitrary: p1 pos)
  case 0
  then show ?case by simp
next
  case (Suc n)
  from char_at_in_range [OF Suc.prems(2)] obtain c where c: "char_at str pos = Inr c" ..
  show ?case
  proof (cases "c \<noteq> NUL \<and> c \<noteq> CHR ''|'' \<and> c \<noteq> CHR '')''")
    case False
    with c Suc.prems show ?thesis by auto
  next
    case True
    show ?thesis
    proof (cases "parseRepetition rec str pos")
      case (Inl e)
      with parseRepetition_fuel [of str rec pos, OF rec] have "e \<noteq> OutOfFuel" by auto
      with Inl c True show ?thesis by simp
    next
      case (Inr r)
      obtain p2 m where r: "r = (p2, m)" by (cases r)
      from parseRepetition_pos [OF Inr [unfolded r]] have m: "pos < m" "m \<le> strlen str" by simp_all
      with Suc.prems have "strlen str - m < n" by simp
      from Suc.IH [OF this m(2), of "makeConcatenationPattern p1 p2"] m(1) c True Inr r
      show ?thesis by auto
    qed
  qed
qed

lemma parseConcatenation_pos:
  assumes rec: "\<And>s. strlen s < strlen str \<Longrightarrow> rec s \<noteq> Inl OutOfFuel"
    and "parseConcatenation rec str pos = Inr (p, pos')"
  shows "pos < pos' \<and> pos' \<le> strlen str"
proof -
  from assms(2) obtain q m where a: "parseRepetition rec str pos = Inr (q, m)"
    and l: "concatenation_loop rec (Suc (strlen str)) str q m = Inr (p, pos')"
    by (auto simp: parseConcatenation_def split: sum.splits prod.splits)
  from parseRepetition_pos [OF a] have m: "pos < m" "m \<le> strlen str" by simp_all
  have "strlen str - m < Suc (strlen str)" by simp
  from concatenation_loop_fuel [of str rec, OF rec this m(2), of q] l m show ?thesis by auto
qed

lemma parseConcatenation_fuel:
  assumes rec: "\<And>s. strlen s < strlen str \<Longrightarrow> rec s \<noteq> Inl OutOfFuel"
  shows "parseConcatenation rec str pos \<noteq> Inl OutOfFuel"
proof (cases "parseRepetition rec str pos")
  case (Inl e)
  with parseRepetition_fuel [of str rec pos, OF rec] show ?thesis
    by (auto simp: parseConcatenation_def)
next
  case (Inr r)
  obtain q m where r: "r = (q, m)" by (cases r)
  from parseRepetition_pos [OF Inr [unfolded r]] have m: "m \<le> strlen str" by simp
  have "strlen str - m < Suc (strlen str)" by simp
  from concatenation_loop_fuel [of str rec, OF rec this m, of q] Inr r show ?thesis
    by (simp add: parseConcatenation_def)
qed

lemma alternation_loop_fuel:
  assumes rec: "\<And>s. strlen s < strlen str \<Longrightarrow> rec s \<noteq> Inl OutOfFuel"
  shows "strlen str - pos < n \<Longrightarrow> pos \<le> strlen str \<Longrightarrow>
    alternation_loop rec n str p1 pos \<noteq> Inl OutOfFuel"
proof (induction n arbitrary: p1 pos)
  case 0
  then show ?case by simp
next
  case (Suc n)
  from char_at_in_range [OF Suc.prems(2)] obtain c where c: "char_at str pos = Inr c" ..
  show ?case
  proof (cases "c \<noteq> NUL \<and> c = CHR ''|''")
    case False
    with c show ?thesis by auto
  next
    case True
    show ?thesis
    proof (cases "parseConcatenation rec str (pos + 1)")
      case (Inl e)
      with parseConcatenation_fuel [of str rec "pos + 1", OF rec] have "e \<noteq> OutOfFuel" by auto
      with Inl c True show ?thesis by simp
    next
      case (Inr r)
      obtain p2 m where r: "r = (p2, m)" by (cases r)
      from parseConcatenation_pos [of str rec, OF rec Inr [unfolded r]]
      have m: "pos + 1 < m" "m \<le> strlen str" by simp_all
      with Suc.prems have "strlen str - m < n" by simp
      from Suc.IH [OF this m(2), of "makeAlterationPattern p1 p2"] c True Inr r
      show ?thesis by auto
    qed
  qed
qed

lemma parseAlternation_fuel:
  assumes rec: "\<And>s. strlen s < strlen str \<Longrightarrow> rec s \<noteq> Inl OutOfFuel"
  shows "parseAlternation rec str 0 \<noteq> Inl OutOfFuel"
proof (cases "parseConcatenation rec str 0")
  case (Inl e)
  with parseConcatenation_fuel [of str rec 0, OF rec] show ?thesis
    by (auto simp: parseAlternation_def)
next
  case (Inr r)
  obtain q m where r: "r = (q, m)" by (cases r)
  from parseConcatenation_pos [of str rec, OF rec Inr [unfolded r]] have m: "m \<le> strlen str" by simp
  have "strlen str - m < Suc (strlen str)" by simp
  from alternation_loop_fuel [of str rec, OF rec this m, of q] Inr r show ?thesis
    by (simp add: parseAlternation_def)
qed

lemma parsePattern_body_fuel:
  assumes rec: "\<And>s. strlen s < strlen str \<Longrightarrow> rec s \<noteq> Inl OutOfFuel"
  shows "parsePattern_body rec str \<noteq> Inl OutOfFuel"
  using parseAlternation_fuel [of str rec, OF rec]
  by (auto simp: parsePattern_body_def split: sum.splits prod.splits if_splits dest: char_at_error)

lemma parsePatternF_fuel: "strlen str < n \<Longrightarrow> parsePatternF n str \<noteq> Inl OutOfFuel"
proof (induction n arbitrary: str)
  case 0
  then show ?case by simp
next
  case (Suc n)
  have "parsePattern_body (parsePatternF n) str \<noteq> Inl OutOfFuel"
  proof (rule parsePattern_body_fuel)
    fix s assume "strlen s < strlen str"
    with Suc.prems have "strlen s < n" by simp
    then show "parsePatternF n s \<noteq> Inl OutOfFuel" by (rule Suc.IH)
  qed
  then show ?case by simp
qed

lemma parsePattern_fuel: "parsePattern str \<noteq> Inl OutOfFuel"
  unfolding parsePattern_def by (rule parsePatternF_fuel) simp

section \<open>Concatenation\<close>

lemma fills_concatenation:
  "fills (Suc len)
     (fold (\<lambda>begin.
         fold (\<lambda>end.
             fold (\<lambda>k t. if matches p1 begin k \<and> matches p2 k end then mark t begin end else t)
               [begin..<Suc end])
           [begin..<Suc len])
       [0..<Suc len])
     (\<lambda>b e. \<exists>k. b \<le> k \<and> k \<le> e \<and> matches p1 b k \<and> matches p2 k e)"
proof -
  have "fills (Suc len)
     (fold (\<lambda>begin.
         fold (\<lambda>end.
             fold (\<lambda>k t. if matches p1 begin k \<and> matches p2 k end then mark t begin end else t)
               [begin..<Suc end])
           [begin..<Suc len])
       [0..<Suc len])
     (\<lambda>b e. \<exists>begin \<in> set [0..<Suc len]. \<exists>end \<in> set [begin..<Suc len].
        \<exists>k \<in> set [begin..<Suc end].
          (matches p1 begin k \<and> matches p2 k end) \<and> b = begin \<and> e = end)"
    by (intro fills_fold fills_if fills_mark) (simp_all del: upt_Suc)
  then show ?thesis
  proof (rule fills_cong)
    fix b e assume "b < Suc len" "e < Suc len"
    then show "(\<exists>begin \<in> set [0..<Suc len]. \<exists>end \<in> set [begin..<Suc len].
        \<exists>k \<in> set [begin..<Suc end].
          (matches p1 begin k \<and> matches p2 k end) \<and> b = begin \<and> e = end) =
      (\<exists>k. b \<le> k \<and> k \<le> e \<and> matches p1 b k \<and> matches p2 k e)"
      by (simp del: upt_Suc add: Bex_def less_Suc_eq_le) (metis le_trans)
  qed
qed

lemma table_of_locate_concatenation:
  "table_of (locate (BinaryPattern st LocateConcatenationPattern p1 p2) str) =
     locateConcatenationPattern (locate p1 str) (locate p2 str) str"
  by (simp add: table_of_def Let_def)

text \<open>
  Claim C8. For a concatenation node with the children \<open>L\<close> and \<open>R\<close> (whatever table it
  held before) and an input \<open>str\<close>: after \<open>locate\<close>, for all \<open>b \<le> e \<le> strlen str\<close>, the
  entry \<open>table[b][e]\<close> is true if and only if some split point \<open>k\<close> with \<open>b \<le> k \<le> e\<close> has
  \<open>L.matches(b, k)\<close> and \<open>R.matches(k, e)\<close>, the children being located on the same input.
\<close>

theorem locateConcatenationPattern_split:
  assumes "b \<le> e" and "e \<le> strlen str"
  shows "matches (locate (BinaryPattern st LocateConcatenationPattern L R) str) b e \<longleftrightarrow>
     (\<exists>k. b \<le> k \<and> k \<le> e \<and> matches (locate L str) b k \<and> matches (locate R str) k e)"
proof -
  have b: "b \<le> strlen str" using assms by simp
  have "matches (locate (BinaryPattern st LocateConcatenationPattern L R) str) b e =
      locateConcatenationPattern (locate L str) (locate R str) str ! b ! e"
    by (simp only: matches_def table_of_locate_concatenation)
  also have "\<dots> = (\<exists>k. b \<le> k \<and> k \<le> e \<and> matches (locate L str) b k \<and> matches (locate R str) k e)"
    unfolding locateConcatenationPattern_def
    by (rule fills_initTable [OF fills_concatenation b assms(2)])
  finally show ?thesis .
qed

theorem locateConcatenationPattern_split_witness:
  "(0::nat) \<le> 2 \<and> 2 \<le> strlen ''ab'' \<and>
   matches (locate (makeConcatenationPattern (makeSymbolPattern CHR ''a'')
     (makeSymbolPattern CHR ''b'')) ''ab'') 0 2"
proof -
  have h1: "(0::nat) \<le> 2" by simp
  have h2: "2 \<le> strlen ''ab''" by (simp add: strlen_def)
  have l: "matches (locate (makeSymbolPattern CHR ''a'') ''ab'') 0 1" by code_simp
  have r: "matches (locate (makeSymbolPattern CHR ''b'') ''ab'') 1 2" by code_simp
  have "\<exists>k. 0 \<le> k \<and> k \<le> 2 \<and> matches (locate (makeSymbolPattern CHR ''a'') ''ab'') 0 k \<and>
      matches (locate (makeSymbolPattern CHR ''b'') ''ab'') k 2"
    using l r by (intro exI [of _ 1]) simp
  then have "matches (locate (BinaryPattern None LocateConcatenationPattern
      (makeSymbolPattern CHR ''a'') (makeSymbolPattern CHR ''b'')) ''ab'') 0 2"
    by (simp only: locateConcatenationPattern_split [OF h1 h2])
  then show ?thesis
    using h2 by (simp add: makeConcatenationPattern_def)
qed

section \<open>Locating twice\<close>

text \<open>
  Claim C9. For every pattern tree and every input, a second \<open>locate\<close> with the same
  input leaves the tree as the first one made it: every node, of every variant, holds
  the same length and the same table, entry for entry.
\<close>

theorem locate_idempotent: "locate (locate pat str) str = locate pat str"
  by (induction pat) (simp_all add: Let_def)

theorem locate_idempotent_witness:
  "locate (locate (makePlusPattern (makeSymbolPattern CHR ''a'')) ''aa'') ''aa'' =
   locate (makePlusPattern (makeSymbolPattern CHR ''a'')) ''aa''"
  by (rule locate_idempotent)

section \<open>The wildcard\<close>

text \<open>
  The comparison of \<^verbatim>\<open>locateSymbolPatternPeriod\<close> on signed characters accepts the bytes
  from 32 to 122, as the comparison on unsigned characters does.
\<close>

lemma char_val_range:
  "(char_val CHR '' '' \<le> char_val c \<and> char_val c \<le> char_val CHR ''z'') =
   (of_char CHR '' '' \<le> (of_char c :: nat) \<and> (of_char c :: nat) \<le> of_char CHR ''z'')"
proof -
  define n where "n = (of_char c :: nat)"
  have "n mod 256 = n"
    by (simp add: n_def)
  then have n: "n < 256"
    by (metis mod_less_divisor zero_less_numeral)
  have c: "(of_char c :: int) = int n"
    by (simp add: n_def of_nat_of_char)
  show ?thesis
    unfolding char_val_def c n_def [symmetric] using n by simp
qed

lemma fills_period:
  "fills (Suc len)
     (fold (\<lambda>begin t.
         if char_val (str ! begin) \<ge> char_val CHR '' '' \<and> char_val (str ! begin) \<le> char_val CHR ''z''
         then mark t begin (begin + 1) else t)
       [0..<len])
     (\<lambda>b e. b < len \<and> e = b + 1 \<and>
        char_val CHR '' '' \<le> char_val (str ! b) \<and> char_val (str ! b) \<le> char_val CHR ''z'')"
proof -
  have "fills (Suc len)
     (fold (\<lambda>begin t.
         if char_val (str ! begin) \<ge> char_val CHR '' '' \<and> char_val (str ! begin) \<le> char_val CHR ''z''
         then mark t begin (begin + 1) else t)
       [0..<len])
     (\<lambda>b e. \<exists>begin \<in> set [0..<len].
        (char_val (str ! begin) \<ge> char_val CHR '' '' \<and> char_val (str ! begin) \<le> char_val CHR ''z'') \<and>
        b = begin \<and> e = begin + 1)"
    by (intro fills_fold fills_if fills_mark) simp_all
  then show ?thesis
    by (rule fills_cong) auto
qed

lemma table_of_locate_period:
  "table_of (locate (SymbolPattern st LocateSymbolPatternPeriod symb) str) =
     locateSymbolPatternPeriod symb str"
  by (simp add: table_of_def)

text \<open>
  Claim C10. For a wildcard node (\<open>makeSymbolPattern CHR ''.''\<close>, or the same node with
  any table from an earlier call), an input \<open>str\<close> and a position \<open>i\<close> before its end:
  after \<open>locate\<close> the entry \<open>table[i][i+1]\<close> is true if and only if the character
  \<open>str[i]\<close> lies between the space and \<open>z\<close>; in particular none of the characters
  \<open>{\<close>, \<open>|\<close>, \<open>}\<close> and \<open>~\<close> is matched.
\<close>

theorem locateSymbolPatternPeriod_range:
  assumes "i < strlen str"
  shows "(matches (locate (SymbolPattern st LocateSymbolPatternPeriod symb) str) i (i + 1) \<longleftrightarrow>
       of_char CHR '' '' \<le> (of_char (str ! i) :: nat) \<and>
       (of_char (str ! i) :: nat) \<le> of_char CHR ''z'')
     \<and> (str ! i \<in> set ''{|}~'' \<longrightarrow>
          \<not> matches (locate (SymbolPattern st LocateSymbolPatternPeriod symb) str) i (i + 1))"
proof -
  have i: "i \<le> strlen str" and i1: "i + 1 \<le> strlen str"
    using assms by simp_all
  have "matches (locate (SymbolPattern st LocateSymbolPatternPeriod symb) str) i (i + 1) =
      locateSymbolPatternPeriod symb str ! i ! (i + 1)"
    by (simp only: matches_def table_of_locate_period)
  also have "\<dots> = (i < strlen str \<and> i + 1 = i + 1 \<and>
      char_val CHR '' '' \<le> char_val (str ! i) \<and> char_val (str ! i) \<le> char_val CHR ''z'')"
    unfolding locateSymbolPatternPeriod_def
    by (rule fills_initTable [OF fills_period i i1])
  also have "\<dots> = (of_char CHR '' '' \<le> (of_char (str ! i) :: nat) \<and>
      (of_char (str ! i) :: nat) \<le> of_char CHR ''z'')"
    using assms by (simp only: char_val_range simp_thms)
  finally have eq:
    "matches (locate (SymbolPattern st LocateSymbolPatternPeriod symb) str) i (i + 1) =
      (of_char CHR '' '' \<le> (of_char (str ! i) :: nat) \<and>
       (of_char (str ! i) :: nat) \<le> of_char CHR ''z'')" .
  show ?thesis
    unfolding eq by auto
qed

theorem locateSymbolPatternPeriod_range_witness:
  "1 < strlen ''a{'' \<and> ''a{'' ! 1 \<in> set ''{|}~'' \<and>
   \<not> matches (locate (makeSymbolPattern CHR ''.'') ''a{'') 1 2"
proof -
  have h: "1 < strlen ''a{''"
    by (simp add: strlen_def)
  from locateSymbolPatternPeriod_range [OF h, of None "CHR ''.''"] h show ?thesis
    by (simp add: makeSymbolPattern_def numeral_2_eq_2)
qed

section \<open>The end anchor\<close>

lemma fills_anchor:
  "fills (Suc len)
     (fold (\<lambda>begin t.
         if symb = CHR ''$'' \<and> begin = len - 1 then mark t (begin + 1) (begin + 1) else t)
       [0..<len])
     (\<lambda>b e. 0 < len \<and> symb = CHR ''$'' \<and> b = len \<and> e = len)"
proof -
  have "fills (Suc len)
     (fold (\<lambda>begin t.
         if symb = CHR ''$'' \<and> begin = len - 1 then mark t (begin + 1) (begin + 1) else t)
       [0..<len])
     (\<lambda>b e. \<exists>begin \<in> set [0..<len].
        (symb = CHR ''$'' \<and> begin = len - 1) \<and> b = begin + 1 \<and> e = begin + 1)"
    by (intro fills_fold fills_if fills_mark) simp_all
  then show ?thesis
    by (rule fills_cong) auto
qed

text \<open>
  On an input with at least one character the end anchor has the single entry
  \<open>table[len][len]\<close>.
\<close>

lemma locateSymbolPatternAnchor_nonempty:
  assumes "0 < strlen str" and "b \<le> strlen str" and "e \<le> strlen str"
  shows "matches (locate (makeSymbolPattern CHR ''$'') str) b e \<longleftrightarrow>
    b = strlen str \<and> e = strlen str"
proof -
  have "matches (locate (makeSymbolPattern CHR ''$'') str) b e =
      locateSymbolPatternAnchor CHR ''$'' str ! b ! e"
    by (simp add: matches_def table_of_def makeSymbolPattern_def)
  also have "\<dots> = (0 < strlen str \<and> CHR ''$'' = CHR ''$'' \<and> b = strlen str \<and> e = strlen str)"
    unfolding locateSymbolPatternAnchor_def
    by (rule fills_initTable [OF fills_anchor assms(2) assms(3)])
  finally show ?thesis
    using assms(1) by simp
qed

text \<open>
  Claim C7 asks for \<open>table[len][len]\<close> on every input, the empty one included. The loop
  of \<^verbatim>\<open>locateSymbolPatternAnchor\<close> runs over the characters of the input and sets the
  entry in the round of the last one; on the empty input it has no round, and the only
  entry of the table, \<open>table[0][0]\<close>, stays false.
\<close>

theorem locateSymbolPatternAnchor_empty_input:
  "strlen '''' = 0 \<and> \<not> matches (locate (makeSymbolPattern CHR ''$'') '''') 0 0"
  by code_simp

section \<open>Alternation, optional, plus and asterisk on small inputs\<close>

text \<open>
  Claim C1 asks for the union of the tables of the children. For \<open>a|b\<close> on the input
  \<open>ab\<close> the second child matches the interval from 1 to 2, and the alternation does
  not: the scan meets a match of the first child at the interval from 0 to 1, copies
  the table of the first child and stops.
\<close>

theorem locateAlterationPattern_drops_second_child:
  "matches (locate (makeSymbolPattern CHR ''b'') ''ab'') 1 2 \<and>
   \<not> matches (locate (makeAlterationPattern (makeSymbolPattern CHR ''a'')
        (makeSymbolPattern CHR ''b'')) ''ab'') 1 2"
  by code_simp

text \<open>
  Claim C2 asks for the entries of \<open>a*\<close> to be the positions reachable by hops of the
  child. On the input \<open>ab\<close> the table of \<open>a*\<close> has the entry from 0 to 2, and position 2
  is not reachable from position 0: the only hop of the child goes from 0 to 1.
\<close>

theorem locateAsteriskPattern_marks_unreachable:
  "matches (locate (makeAsteriskPattern (makeSymbolPattern CHR ''a'')) ''ab'') 0 2 \<and>
   \<not> (hop (locate (makeSymbolPattern CHR ''a'') ''ab'') (strlen ''ab''))\<^sup>*\<^sup>* 0 2"
proof
  show "matches (locate (makeAsteriskPattern (makeSymbolPattern CHR ''a'')) ''ab'') 0 2"
    by code_simp
next
  let ?C = "locate (makeSymbolPattern CHR ''a'') ''ab''"
  have len: "strlen ''ab'' = 2" by (simp add: strlen_def)
  have n02: "\<not> matches ?C 0 2" by code_simp
  have n12: "\<not> matches ?C 1 2" by code_simp
  have inv: "y \<le> 1" if "(hop ?C 2)\<^sup>*\<^sup>* 0 y" for y
    using that
  proof (induction rule: rtranclp_induct)
    case base
    show ?case by simp
  next
    case (step y z)
    from step.hyps(2) have "y \<le> z" "z \<le> 2" "matches ?C y z"
      by (simp_all add: hop_def)
    with step.IH n02 n12 show ?case
      by (cases "z = 2"; cases "y = 0"; cases "y = 1") auto
  qed
  show "\<not> (hop ?C (strlen ''ab''))\<^sup>*\<^sup>* 0 2"
    using inv [of 2] by (auto simp: len)
qed

text \<open>
  Claim C3 asks for the entries of \<open>a+\<close> to be the positions reachable by one or more
  hops of the child, so that every match of the child is one of \<open>a+\<close>. On the input \<open>aa\<close>
  the child matches from 0 to 1, one hop, and the table of \<open>a+\<close> has no entry from 0
  to 1: the entry written for this match is the one from 0 to 2.
\<close>

theorem locatePlusPattern_drops_single_match:
  "(hop (locate (makeSymbolPattern CHR ''a'') ''aa'') (strlen ''aa''))\<^sup>+\<^sup>+ 0 1 \<and>
   \<not> matches (locate (makePlusPattern (makeSymbolPattern CHR ''a'')) ''aa'') 0 1"
proof
  have "matches (locate (makeSymbolPattern CHR ''a'') ''aa'') 0 1" by code_simp
  then have "hop (locate (makeSymbolPattern CHR ''a'') ''aa'') (strlen ''aa'') 0 1"
    by (simp add: hop_def strlen_def)
  then show "(hop (locate (makeSymbolPattern CHR ''a'') ''aa'') (strlen ''aa''))\<^sup>+\<^sup>+ 0 1"
    by (rule tranclp.r_into_trancl)
next
  show "\<not> matches (locate (makePlusPattern (makeSymbolPattern CHR ''a'')) ''aa'') 0 1"
    by code_simp
qed

text \<open>
  Claim C4 asks for the matches of the child and the empty match at every position, and
  nothing else. For \<open>a?\<close> on the input \<open>b\<close> the child does not match from 0 to 1 and the
  table of \<open>a?\<close> has that entry; on the input \<open>a\<close> the empty match at position 1 is
  missing, since the scan stops at the first match of the child.
\<close>

theorem locateOptionalPattern_other_entries:
  "\<not> matches (locate (makeSymbolPattern CHR ''a'') ''b'') 0 1 \<and>
   matches (locate (makeOptionalPattern (makeSymbolPattern CHR ''a'')) ''b'') 0 1 \<and>
   \<not> matches (locate (makeOptionalPattern (makeSymbolPattern CHR ''a'')) ''a'') 1 1"
  by code_simp

section \<open>Groups in the parser\<close>

text \<open>
  Claim C5 asks for the text of a group to end at the close parenthesis that matches
  under nesting. For \<open>((a)b)\<close> the scan from position 1 stops at the first close
  parenthesis, at position 3, with the text \<open>(a\<close>; the parse of that text opens a group
  that has no close parenthesis and reads behind the end of the string.
\<close>

theorem parsePattern_nested_group:
  "group_scan ''((a)b)'' 1 [] = Inr (''(a'', 3) \<and> parsePattern ''((a)b)'' = Inl OutOfBounds"
  by code_simp

text \<open>
  Claim C6 asks for \<open>InvalidPattern\<close> on a group or a class that is not closed. The class
  branch tests for the end of the string and gives \<open>InvalidPattern\<close>; the group branch
  has no such test, and on \<open>a(\<close> the scan for the close parenthesis reads behind the end
  of the string.
\<close>

theorem parsePattern_unclosed_group:
  "parsePattern ''a('' = Inl OutOfBounds \<and> parsePattern ''a['' = Inl InvalidPattern"
  by code_simp

end
